theory Spec2Isabelle
  imports Complex_Main
begin

section \<open>The chronological window splitter of \<^verbatim>\<open>prelude/calendar.py\<close>\<close>

text \<open>
  The function \<^verbatim>\<open>create_train_val_date_splits\<close> is a Python generator function.
  Calling it runs none of its body: it returns a generator object that holds the four
  arguments. Each \<^verbatim>\<open>next\<close> runs the body up to the following \<^verbatim>\<open>yield\<close>.
  The embedding keeps that shape: a record for the generator object, a step function
  for \<^verbatim>\<open>next\<close>, and Python's \<^verbatim>\<open>list(...)\<close> as the function that calls
  \<^verbatim>\<open>next\<close> until \<^verbatim>\<open>StopIteration\<close>.
  Python integers are unbounded and modelled as \<open>int\<close>; list elements are opaque.
\<close>

subsection \<open>Python list slices\<close>

text \<open>
  The bounds of a slice are adjusted as CPython does for a step of one: a negative
  bound counts from the end, and the result is clamped to \<open>0 .. len\<close>. A slice never
  raises.
\<close>

definition adjust_index :: "nat \<Rightarrow> int \<Rightarrow> nat" where
  "adjust_index n i =
     (if i < 0 then (if i + int n < 0 then 0 else nat (i + int n))
      else if int n \<le> i then n else nat i)"

text \<open>\<^verbatim>\<open>xs[lo:hi]\<close>\<close>

definition py_slice :: "'a list \<Rightarrow> int \<Rightarrow> int \<Rightarrow> 'a list" where
  "py_slice xs lo hi =
     (let l = adjust_index (length xs) lo; h = adjust_index (length xs) hi
      in take (h - l) (drop l xs))"

text \<open>\<^verbatim>\<open>xs[lo:]\<close>\<close>

definition py_slice_from :: "'a list \<Rightarrow> int \<Rightarrow> 'a list" where
  "py_slice_from xs lo = drop (adjust_index (length xs) lo) xs"

text \<open>\<^verbatim>\<open>xs[:hi]\<close>\<close>

definition py_slice_to :: "'a list \<Rightarrow> int \<Rightarrow> 'a list" where
  "py_slice_to xs hi = take (adjust_index (length xs) hi) xs"

subsection \<open>The generator object\<close>

datatype error = ValueError | StopIteration

text \<open>
  Where the generator stands: not started, suspended at the \<^verbatim>\<open>yield\<close> of line 172
  with the loop variable \<^verbatim>\<open>start\<close> and the local \<^verbatim>\<open>done_flag\<close>, or finished.
\<close>

datatype position = Created | Suspended int bool | Exhausted

record 'a generator =
  dates :: "'a list"
  train_window :: int
  val_window :: int
  fold_incomplete :: bool
  position :: position

text \<open>The call itself (lines 128-130): no statement of the body runs.\<close>

definition create_train_val_date_splits ::
  "'a list \<Rightarrow> int \<Rightarrow> int \<Rightarrow> bool \<Rightarrow> 'a generator" where
  "create_train_val_date_splits ds tw vw fi =
     \<lparr>dates = ds, train_window = tw, val_window = vw, fold_incomplete = fi,
      position = Created\<rparr>"

text \<open>
  Whether \<open>i\<close> is an element still to come of \<^verbatim>\<open>range(0, stop, step)\<close>, for \<open>i\<close> on
  the stride. A zero step has no range object: the constructor raises.
\<close>

definition range_has :: "int \<Rightarrow> int \<Rightarrow> int \<Rightarrow> bool" where
  "range_has stop step i =
     (if 0 < step then i < stop else if step < 0 then stop < i else False)"

text \<open>
  One pass through the loop body, lines 153-172, at \<^verbatim>\<open>start\<close> with the current
  \<^verbatim>\<open>done_flag\<close>: \<open>None\<close> is the \<^verbatim>\<open>break\<close> of line 167, \<open>Some\<close> the pair
  yielded at line 172 together with \<^verbatim>\<open>done_flag\<close>.
\<close>

definition loop_body ::
  "'a generator \<Rightarrow> int \<Rightarrow> bool \<Rightarrow> (('a list \<times> 'a list) \<times> bool) option" where
  "loop_body g start done_flag =
     (let total_window = train_window g + val_window g;
          end = start + total_window;
          is_last_window = (end + val_window g > int (length (dates g)));
          (window, done_flag') =
             (if fold_incomplete g \<and> is_last_window
              then (py_slice_from (dates g) start, True)
              else (py_slice (dates g) start end, done_flag))
      in if int (length window) \<le> train_window g then None
         else Some ((py_slice_to window (train_window g),
                     py_slice_from window (train_window g)), done_flag'))"

text \<open>
  The loop header at the range element \<open>start\<close>: the range may be used up (the loop
  ends, the function returns, \<^verbatim>\<open>StopIteration\<close>), the body may break, or it yields
  and the generator is suspended.
\<close>

definition iteration ::
  "'a generator \<Rightarrow> int \<Rightarrow> bool \<Rightarrow> (error + 'a list \<times> 'a list) \<times> 'a generator" where
  "iteration g start done_flag =
     (if \<not> range_has (int (length (dates g))) (val_window g) start
      then (Inl StopIteration, g\<lparr>position := Exhausted\<rparr>)
      else case loop_body g start done_flag of
             None \<Rightarrow> (Inl StopIteration, g\<lparr>position := Exhausted\<rparr>)
           | Some (split, done_flag') \<Rightarrow>
               (Inr split, g\<lparr>position := Suspended start done_flag'\<rparr>))"

text \<open>
  \<^verbatim>\<open>next(g)\<close>. The first call runs lines 149-152: \<^verbatim>\<open>range\<close> raises
  \<^verbatim>\<open>ValueError\<close> on a zero step, whatever the list. A resumed generator runs lines
  174-175 and then the next element of the range. A generator that raised or returned
  stays finished.
\<close>

definition gen_next ::
  "'a generator \<Rightarrow> (error + 'a list \<times> 'a list) \<times> 'a generator" where
  "gen_next g =
     (case position g of
        Created \<Rightarrow>
          if val_window g = 0 then (Inl ValueError, g\<lparr>position := Exhausted\<rparr>)
          else iteration g 0 False
      | Suspended start done_flag \<Rightarrow>
          if done_flag then (Inl StopIteration, g\<lparr>position := Exhausted\<rparr>)
          else iteration g (start + val_window g) done_flag
      | Exhausted \<Rightarrow> (Inl StopIteration, g))"

text \<open>The generator after \<open>k\<close> calls of \<^verbatim>\<open>next\<close>.\<close>

primrec advance :: "nat \<Rightarrow> 'a generator \<Rightarrow> 'a generator" where
  "advance 0 g = g"
| "advance (Suc k) g = snd (gen_next (advance k g))"

text \<open>The value of \<^verbatim>\<open>start\<close> in the frame of a suspended generator.\<close>

fun start_offset :: "position \<Rightarrow> int option" where
  "start_offset (Suspended start done_flag) = Some start"
| "start_offset Created = None"
| "start_offset Exhausted = None"

text \<open>
  What is left of the range for a generator, as a number: it bounds the calls of
  \<^verbatim>\<open>next\<close> that can still yield.
\<close>

definition remaining :: "'a generator \<Rightarrow> nat" where
  "remaining g =
     (case position g of
        Created \<Rightarrow> Suc (Suc (length (dates g)))
      | Suspended start done_flag \<Rightarrow>
          if done_flag then 0
          else if 0 < val_window g then Suc (nat (int (length (dates g)) - start))
          else Suc (nat (start - int (length (dates g))))
      | Exhausted \<Rightarrow> 0)"

text \<open>
  \<^verbatim>\<open>list(g)\<close>: calls \<^verbatim>\<open>next\<close> until \<^verbatim>\<open>StopIteration\<close> and returns what was
  yielded; any other exception leaves the call. The generator comes back too, so that
  its final state can be read.
\<close>

function py_list ::
  "'a generator \<Rightarrow> (error + ('a list \<times> 'a list) list) \<times> 'a generator" where
  "py_list g =
     (case gen_next g of
        (Inl StopIteration, g') \<Rightarrow> (Inr [], g')
      | (Inl ValueError, g') \<Rightarrow> (Inl ValueError, g')
      | (Inr split, g') \<Rightarrow>
          (case py_list g' of
             (Inl e, g'') \<Rightarrow> (Inl e, g'')
           | (Inr splits, g'') \<Rightarrow> (Inr (split # splits), g'')))"
  by pat_completeness auto
termination
  apply (relation "measure remaining")
   apply simp
  apply clarsimp
  apply (drule sym)
  apply (auto simp: gen_next_def iteration_def remaining_def range_has_def
              split: position.splits if_splits option.splits prod.splits)
  done

declare py_list.simps [simp del]

section \<open>Steps of the generator\<close>

text \<open>
  Facts about one \<^verbatim>\<open>next\<close>, about \<^verbatim>\<open>list(...)\<close> as a sequence of them, and
  the closed form of the loop body for a positive stride and a non-negative training
  window, where no slice bound is negative.
\<close>

lemma gen_next_frame:
  "dates (snd (gen_next g)) = dates g \<and> train_window (snd (gen_next g)) = train_window g
   \<and> val_window (snd (gen_next g)) = val_window g
   \<and> fold_incomplete (snd (gen_next g)) = fold_incomplete g"
  by (auto simp: gen_next_def iteration_def split: position.splits option.splits prod.splits)

lemma py_list_induct:
  assumes "\<And>g. (\<And>s g'. gen_next g = (Inr s, g') \<Longrightarrow> P g') \<Longrightarrow> P g"
  shows "P g"
proof (induction g rule: py_list.induct)
  case (1 g)
  show ?case
  proof (rule assms)
    fix s g' assume "gen_next g = (Inr s, g')"
    then show "P g'" using "1.IH" [of "Inr s" g' s] by simp
  qed
qed

lemma py_list_frame:
  "dates (snd (py_list g)) = dates g \<and> train_window (snd (py_list g)) = train_window g
   \<and> val_window (snd (py_list g)) = val_window g
   \<and> fold_incomplete (snd (py_list g)) = fold_incomplete g"
proof (induction g rule: py_list_induct)
  case (1 g)
  obtain r g' where step: "gen_next g = (r, g')" by (cases "gen_next g")
  have fr: "dates g' = dates g \<and> train_window g' = train_window g
    \<and> val_window g' = val_window g \<and> fold_incomplete g' = fold_incomplete g"
    using gen_next_frame [of g] step by simp
  show ?case
  proof (cases r)
    case (Inl e)
    with step fr show ?thesis
      by (cases e) (simp_all add: py_list.simps [of g])
  next
    case (Inr s)
    with step have ih: "dates (snd (py_list g')) = dates g' \<and>
      train_window (snd (py_list g')) = train_window g' \<and>
      val_window (snd (py_list g')) = val_window g' \<and>
      fold_incomplete (snd (py_list g')) = fold_incomplete g'"
      using "1.IH" [of s g'] by simp
    with step fr Inr show ?thesis
      by (auto simp: py_list.simps [of g] split: prod.splits sum.splits)
  qed
qed

lemma advance_shift: "advance (Suc k) g = advance k (snd (gen_next g))"
  by (induction k) simp_all

text \<open>An exhausted generator yields nothing more.\<close>

lemma gen_next_no_yield:
  "fst (gen_next g) = Inl e \<Longrightarrow> position (snd (gen_next g)) = Exhausted"
  by (auto simp: gen_next_def iteration_def split: position.splits option.splits prod.splits if_splits)

lemma gen_next_exhausted:
  "position g = Exhausted \<Longrightarrow> gen_next g = (Inl StopIteration, g)"
  by (simp add: gen_next_def)

lemma py_list_nth:
  "py_list g = (Inr ss, gf) \<Longrightarrow>
     (\<forall>k < length ss. fst (gen_next (advance k g)) = Inr (ss ! k)) \<and>
     fst (gen_next (advance (length ss) g)) = Inl StopIteration"
proof (induction g arbitrary: ss gf rule: py_list_induct)
  case (1 g)
  obtain r g' where step: "gen_next g = (r, g')" by (cases "gen_next g")
  show ?case
  proof (cases r)
    case (Inl e)
    with step "1.prems" show ?thesis
      by (cases e) (simp_all add: py_list.simps [of g])
  next
    case (Inr s)
    obtain r2 g2 where rest: "py_list g' = (r2, g2)" by (cases "py_list g'")
    from step Inr rest "1.prems" obtain ss' where r2: "r2 = Inr ss'" and ss: "ss = s # ss'"
      by (auto simp: py_list.simps [of g] split: sum.splits)
    have ih: "(\<forall>k < length ss'. fst (gen_next (advance k g')) = Inr (ss' ! k)) \<and>
       fst (gen_next (advance (length ss') g')) = Inl StopIteration"
      using "1.IH" [of s g' ss' g2] step Inr rest r2 by simp
    have sh: "\<And>k. advance (Suc k) g = advance k g'"
      using step by (simp add: advance_shift del: advance.simps)
    show ?thesis
    proof (intro conjI allI impI)
      fix k assume "k < length ss"
      then show "fst (gen_next (advance k g)) = Inr (ss ! k)"
        using ih ss step Inr sh by (cases k) (simp_all del: advance.simps(2))
    next
      show "fst (gen_next (advance (length ss) g)) = Inl StopIteration"
        using ih ss sh by (simp del: advance.simps(2))
    qed
  qed
qed

lemma py_list_no_error:
  "val_window g \<noteq> 0 \<or> position g \<noteq> Created \<Longrightarrow> \<exists>ss. fst (py_list g) = Inr ss"
proof (induction g rule: py_list_induct)
  case (1 g)
  obtain r g' where step: "gen_next g = (r, g')" by (cases "gen_next g")
  show ?case
  proof (cases r)
    case (Inl e)
    have "e = StopIteration"
      using step Inl "1.prems"
      by (auto simp: gen_next_def iteration_def split: position.splits option.splits prod.splits if_splits)
    with step Inl show ?thesis by (simp add: py_list.simps [of g])
  next
    case (Inr s)
    have "position g' \<noteq> Created"
      using step Inr
      by (auto simp: gen_next_def iteration_def split: position.splits option.splits prod.splits if_splits)
    then have "\<exists>ss. fst (py_list g') = Inr ss"
      using "1.IH" [of s g'] step Inr by simp
    then show ?thesis using step Inr
      by (auto simp: py_list.simps [of g] split: prod.splits sum.splits)
  qed
qed

lemma slice_from_nonneg: "0 \<le> i \<Longrightarrow> py_slice_from xs i = drop (nat i) xs"
  by (simp add: py_slice_from_def adjust_index_def)

lemma slice_to_nonneg: "0 \<le> i \<Longrightarrow> py_slice_to xs i = take (nat i) xs"
  by (simp add: py_slice_to_def adjust_index_def)

lemma slice_nonneg:
  "0 \<le> lo \<Longrightarrow> lo \<le> hi \<Longrightarrow> py_slice xs lo hi = take (nat (hi - lo)) (drop (nat lo) xs)"
  by (auto simp: py_slice_def adjust_index_def Let_def nat_diff_distrib)

lemma loop_body_nonneg:
  assumes vw: "0 < val_window g" and tw: "0 \<le> train_window g" and s: "0 \<le> s"
  shows "loop_body g s False =
     (if s + train_window g < int (length (dates g))
      then Some ((take (nat (train_window g)) (drop (nat s) (dates g)),
                  if fold_incomplete g \<and>
                     int (length (dates g)) < s + train_window g + 2 * val_window g
                  then drop (nat (s + train_window g)) (dates g)
                  else take (nat (val_window g)) (drop (nat (s + train_window g)) (dates g))),
                 fold_incomplete g \<and>
                   int (length (dates g)) < s + train_window g + 2 * val_window g)
      else None)"
proof (cases "fold_incomplete g \<and> int (length (dates g)) < s + train_window g + 2 * val_window g")
  case True
  have "drop (nat (train_window g)) (drop (nat s) (dates g))
          = drop (nat (s + train_window g)) (dates g)"
    using tw s by (simp add: nat_add_distrib add.commute)
  with True tw s show ?thesis
    by (auto simp: loop_body_def Let_def slice_from_nonneg slice_to_nonneg)
next
  case False
  let ?w = "take (nat (train_window g + val_window g)) (drop (nat s) (dates g))"
  have w: "py_slice (dates g) s (s + (train_window g + val_window g)) = ?w"
    using vw tw s by (simp add: slice_nonneg)
  have len: "int (length ?w) \<le> train_window g \<longleftrightarrow> \<not> s + train_window g < int (length (dates g))"
    using vw tw s by auto
  have tr: "py_slice_to ?w (train_window g)
              = take (nat (train_window g)) (drop (nat s) (dates g))"
    using vw tw by (simp add: slice_to_nonneg min_def)
  have va: "py_slice_from ?w (train_window g)
              = take (nat (val_window g)) (drop (nat (s + train_window g)) (dates g))"
    using vw tw s by (simp add: slice_from_nonneg drop_take nat_add_distrib add.commute)
  have cond: "\<not> (fold_incomplete g \<and>
     int (length (dates g)) < s + (train_window g + val_window g) + val_window g)"
    using False by (simp add: algebra_simps)
  have "loop_body g s False =
     (if int (length ?w) \<le> train_window g then None
      else Some ((py_slice_to ?w (train_window g), py_slice_from ?w (train_window g)), False))"
    unfolding loop_body_def Let_def if_not_P [OF cond] w prod.case ..
  then show ?thesis
    unfolding tr va len using False by auto
qed

lemma iteration_nonneg:
  assumes vw: "0 < val_window g" and tw: "0 \<le> train_window g" and s: "0 \<le> s"
  shows "iteration g s False =
     (if s + train_window g < int (length (dates g))
      then (Inr (take (nat (train_window g)) (drop (nat s) (dates g)),
                 if fold_incomplete g \<and>
                    int (length (dates g)) < s + train_window g + 2 * val_window g
                 then drop (nat (s + train_window g)) (dates g)
                 else take (nat (val_window g)) (drop (nat (s + train_window g)) (dates g))),
            g\<lparr>position := Suspended s (fold_incomplete g \<and>
                   int (length (dates g)) < s + train_window g + 2 * val_window g)\<rparr>)
      else (Inl StopIteration, g\<lparr>position := Exhausted\<rparr>))"
  using vw tw s
  by (simp add: iteration_def loop_body_nonneg range_has_def)

lemma iteration_position: "iteration (g\<lparr>position := p\<rparr>) s d = iteration g s d"
  by (simp add: iteration_def loop_body_def)

lemma advance_yield:
  assumes vw: "0 < val_window g" and tw: "0 \<le> train_window g" and cr: "position g = Created"
  shows "fst (gen_next (advance k g)) = Inr sp \<Longrightarrow>
           gen_next (advance k g) = iteration g (int k * val_window g) False"
proof (induction k arbitrary: sp)
  case 0
  with vw cr show ?case by (simp add: gen_next_def)
next
  case (Suc k)
  let ?g1 = "advance k g"
  have "\<exists>sp'. fst (gen_next ?g1) = Inr sp'"
  proof (cases "fst (gen_next ?g1)")
    case (Inl e)
    then have "position (advance (Suc k) g) = Exhausted"
      by (simp add: gen_next_no_yield)
    then have "fst (gen_next (advance (Suc k) g)) = Inl StopIteration"
      by (simp add: gen_next_exhausted del: advance.simps)
    with Suc.prems show ?thesis by simp
  next
    case (Inr sp')
    then show ?thesis by blast
  qed
  then obtain sp' where y: "fst (gen_next ?g1) = Inr sp'" ..
  have eq: "gen_next ?g1 = iteration g (int k * val_window g) False"
    using Suc.IH [OF y] .
  have k0: "0 \<le> int k * val_window g" using vw by simp
  from y eq obtain d where g2: "advance (Suc k) g = g\<lparr>position := Suspended (int k * val_window g) d\<rparr>"
    by (auto simp: iteration_nonneg [OF vw tw k0] split: if_splits)
  have "\<not> d" using Suc.prems g2 by (auto simp: gen_next_def simp del: advance.simps)
  then show ?case
    unfolding g2 by (simp add: gen_next_def iteration_position algebra_simps)
qed

lemma kth_yield:
  assumes vw: "0 < val_window g" and tw: "0 \<le> train_window g" and cr: "position g = Created"
    and y: "fst (gen_next (advance k g)) = Inr sp"
  shows "int k * val_window g + train_window g < int (length (dates g))"
    and "sp = (take (nat (train_window g)) (drop (nat (int k * val_window g)) (dates g)),
               if fold_incomplete g \<and> int (length (dates g))
                    < int k * val_window g + train_window g + 2 * val_window g
               then drop (nat (int k * val_window g + train_window g)) (dates g)
               else take (nat (val_window g))
                      (drop (nat (int k * val_window g + train_window g)) (dates g)))"
    and "advance (Suc k) g = g\<lparr>position := Suspended (int k * val_window g)
            (fold_incomplete g \<and> int (length (dates g))
                    < int k * val_window g + train_window g + 2 * val_window g)\<rparr>"
proof -
  have k0: "0 \<le> int k * val_window g" using vw by simp
  have eq: "gen_next (advance k g) = iteration g (int k * val_window g) False"
    using advance_yield [OF vw tw cr y] .
  show "int k * val_window g + train_window g < int (length (dates g))"
    using y unfolding eq iteration_nonneg [OF vw tw k0] by (auto split: if_splits)
  show "sp = (take (nat (train_window g)) (drop (nat (int k * val_window g)) (dates g)),
               if fold_incomplete g \<and> int (length (dates g))
                    < int k * val_window g + train_window g + 2 * val_window g
               then drop (nat (int k * val_window g + train_window g)) (dates g)
               else take (nat (val_window g))
                      (drop (nat (int k * val_window g + train_window g)) (dates g)))"
    using y unfolding eq iteration_nonneg [OF vw tw k0] by (auto split: if_splits)
  show "advance (Suc k) g = g\<lparr>position := Suspended (int k * val_window g)
            (fold_incomplete g \<and> int (length (dates g))
                    < int k * val_window g + train_window g + 2 * val_window g)\<rparr>"
    using y unfolding advance.simps eq iteration_nonneg [OF vw tw k0] by (auto split: if_splits)
qed

text \<open>A yield that did not set the flag is followed by another one while a window is left.\<close>

lemma next_yield:
  assumes vw: "0 < val_window g" and tw: "0 \<le> train_window g" and cr: "position g = Created"
    and y: "fst (gen_next (advance k g)) = Inr sp"
    and nl: "\<not> (fold_incomplete g \<and> int (length (dates g))
                    < int k * val_window g + train_window g + 2 * val_window g)"
    and more: "int (Suc k) * val_window g + train_window g < int (length (dates g))"
  shows "\<exists>sp'. fst (gen_next (advance (Suc k) g)) = Inr sp'"
proof -
  have k1: "0 \<le> int k * val_window g + val_window g" using vw by simp
  have more': "int k * val_window g + val_window g + train_window g < int (length (dates g))"
    using more by (simp add: algebra_simps)
  show ?thesis
    unfolding kth_yield(3) [OF vw tw cr y] using nl more'
    by (auto simp: gen_next_def iteration_position iteration_nonneg [OF vw tw k1])
qed

lemma create_fields [simp]:
  "dates (create_train_val_date_splits ds tw vw fi) = ds"
  "train_window (create_train_val_date_splits ds tw vw fi) = tw"
  "val_window (create_train_val_date_splits ds tw vw fi) = vw"
  "fold_incomplete (create_train_val_date_splits ds tw vw fi) = fi"
  "position (create_train_val_date_splits ds tw vw fi) = Created"
  by (simp_all add: create_train_val_date_splits_def)

lemma splits_exist:
  "vw \<noteq> 0 \<Longrightarrow> \<exists>ss. fst (py_list (create_train_val_date_splits ds tw vw fi)) = Inr ss"
  by (rule py_list_no_error) simp

lemma splits_nth:
  "fst (py_list g) = Inr ss \<Longrightarrow> k < length ss \<Longrightarrow> fst (gen_next (advance k g)) = Inr (ss ! k)"
  using py_list_nth [of g ss "snd (py_list g)"] by (cases "py_list g") simp

lemma splits_stop:
  "fst (py_list g) = Inr ss \<Longrightarrow> fst (gen_next (advance (length ss) g)) = Inl StopIteration"
  using py_list_nth [of g ss "snd (py_list g)"] by (cases "py_list g") simp

lemma yield_prev:
  assumes "fst (gen_next (advance (Suc k) g)) = Inr sp"
  shows "\<exists>sp'. fst (gen_next (advance k g)) = Inr sp'"
proof (cases "fst (gen_next (advance k g))")
  case (Inl e)
  then have "position (advance (Suc k) g) = Exhausted"
    by (simp add: gen_next_no_yield)
  then have "fst (gen_next (advance (Suc k) g)) = Inl StopIteration"
    by (simp add: gen_next_exhausted del: advance.simps)
  with assms show ?thesis by simp
next
  case (Inr sp')
  then show ?thesis by blast
qed

lemma yield_not_done:
  assumes vw: "0 < val_window g" and tw: "0 \<le> train_window g" and cr: "position g = Created"
    and y: "fst (gen_next (advance (Suc k) g)) = Inr sp"
  shows "\<not> (fold_incomplete g \<and> int (length (dates g))
                    < int k * val_window g + train_window g + 2 * val_window g)"
proof -
  from yield_prev [OF y] obtain sp' where y': "fst (gen_next (advance k g)) = Inr sp'" ..
  show ?thesis
    using y unfolding kth_yield(3) [OF vw tw cr y']
    by (auto simp: gen_next_def)
qed

lemma split_k:
  assumes tw: "0 \<le> tw" and vw: "0 < vw"
    and ss: "fst (py_list (create_train_val_date_splits ds tw vw fi)) = Inr ss"
    and k: "k < length ss"
  shows "int k * vw + tw < int (length ds)"
    and "ss ! k = (take (nat tw) (drop (nat (int k * vw)) ds),
                   if fi \<and> int (length ds) < int k * vw + tw + 2 * vw
                   then drop (nat (int k * vw + tw)) ds
                   else take (nat vw) (drop (nat (int k * vw + tw)) ds))"
    and "advance (Suc k) (create_train_val_date_splits ds tw vw fi)
           = (create_train_val_date_splits ds tw vw fi)
               \<lparr>position := Suspended (int k * vw)
                  (fi \<and> int (length ds) < int k * vw + tw + 2 * vw)\<rparr>"
    and "Suc k < length ss \<Longrightarrow> \<not> (fi \<and> int (length ds) < int k * vw + tw + 2 * vw)"
proof -
  let ?g = "create_train_val_date_splits ds tw vw fi"
  have y: "fst (gen_next (advance k ?g)) = Inr (ss ! k)"
    using ss k by (rule splits_nth)
  show "int k * vw + tw < int (length ds)"
    using kth_yield(1) [of ?g k "ss ! k"] tw vw y by simp
  show "ss ! k = (take (nat tw) (drop (nat (int k * vw)) ds),
                   if fi \<and> int (length ds) < int k * vw + tw + 2 * vw
                   then drop (nat (int k * vw + tw)) ds
                   else take (nat vw) (drop (nat (int k * vw + tw)) ds))"
    using kth_yield(2) [of ?g k "ss ! k"] tw vw y by simp
  show "advance (Suc k) ?g = ?g\<lparr>position := Suspended (int k * vw)
                  (fi \<and> int (length ds) < int k * vw + tw + 2 * vw)\<rparr>"
    using kth_yield(3) [of ?g k "ss ! k"] tw vw y by simp
  show "\<not> (fi \<and> int (length ds) < int k * vw + tw + 2 * vw)" if "Suc k < length ss"
  proof -
    have "fst (gen_next (advance (Suc k) ?g)) = Inr (ss ! Suc k)"
      using ss that by (rule splits_nth)
    then show ?thesis
      using yield_not_done [of ?g k "ss ! Suc k"] tw vw by simp
  qed
qed

text \<open>With folding on, the split that ends the sequence is the one that set the flag.\<close>

lemma last_split_folds:
  assumes tw: "0 \<le> tw" and vw: "0 < vw"
    and ss: "fst (py_list (create_train_val_date_splits ds tw vw True)) = Inr ss"
    and k: "Suc k = length ss"
  shows "int (length ds) < int k * vw + tw + 2 * vw"
proof (rule ccontr)
  assume "\<not> int (length ds) < int k * vw + tw + 2 * vw"
  then have more: "int (Suc k) * vw + tw < int (length ds)"
    using vw by (simp add: algebra_simps)
  let ?g = "create_train_val_date_splits ds tw vw True"
  have kl: "k < length ss" using k by simp
  have y: "fst (gen_next (advance k ?g)) = Inr (ss ! k)"
    using ss kl by (rule splits_nth)
  have "\<exists>sp'. fst (gen_next (advance (Suc k) ?g)) = Inr sp'"
    using next_yield [of ?g k "ss ! k"] tw vw y more
      \<open>\<not> int (length ds) < int k * vw + tw + 2 * vw\<close> by simp
  moreover have "fst (gen_next (advance (Suc k) ?g)) = Inl StopIteration"
    using splits_stop [OF ss] k by simp
  ultimately show False by simp
qed

lemma advance_frame:
  "dates (advance k g) = dates g \<and> train_window (advance k g) = train_window g
   \<and> val_window (advance k g) = val_window g
   \<and> fold_incomplete (advance k g) = fold_incomplete g"
  by (induction k) (simp_all add: gen_next_frame)

lemma gen_next_no_value_error:
  "val_window g \<noteq> 0 \<Longrightarrow> fst (gen_next g) \<noteq> Inl ValueError"
  by (auto simp: gen_next_def iteration_def split: position.splits option.splits)

lemma folded_length_bound:
  fixes L vw m :: int
  assumes "0 < vw" and "1 \<le> L" and "L < 2 * vw" and "m = L + q * vw"
  shows "L \<le> vw + m mod vw"
proof (cases "L < vw")
  case True
  have "0 \<le> m mod vw" using assms(1) by simp
  with True show ?thesis by simp
next
  case False
  have "m = L - vw + (q + 1) * vw" unfolding assms(4) by (simp add: algebra_simps)
  then have "m mod vw = (L - vw + (q + 1) * vw) mod vw" by simp
  also have "\<dots> = (L - vw) mod vw" by (rule mod_mult_self1)
  also have "\<dots> = L - vw" using False assms(3) by (intro mod_pos_pos_trivial) simp_all
  finally show ?thesis by simp
qed

section \<open>Properties of the splitter\<close>

subsection \<open>C1: four dates, windows 3 and 2, no folding\<close>

text \<open>
  C1 (as stated): \<^verbatim>\<open>dates = [0,1,2,3]\<close>, \<^verbatim>\<open>train_window = 3\<close>,
  \<^verbatim>\<open>val_window = 2\<close>, \<^verbatim>\<open>fold_incomplete = False\<close> yields the empty sequence.
  The code does not: at \<^verbatim>\<open>start = 0\<close> the window is \<^verbatim>\<open>dates[0:5]\<close>, of
  length 4, which exceeds the training window, so one split is yielded.
\<close>

theorem short_validation_not_dropped:
  "fst (py_list (create_train_val_date_splits [0, 1, 2, 3 :: int] 3 2 False)) \<noteq> Inr []"
  by code_simp

text \<open>
  C1 (amended): the same call yields exactly one split, \<^verbatim>\<open>([0,1,2], [3])\<close>, whose
  validation slice is cut short at the end of the list, as the last split of the
  docstring's first example is.
\<close>

theorem four_dates_one_split:
  "fst (py_list (create_train_val_date_splits [0, 1, 2, 3 :: int] 3 2 False))
     = Inr [([0, 1, 2], [3])]"
  by code_simp

subsection \<open>C2: lengths of the validation slices\<close>

text \<open>
  C2 (as stated): for positive windows every validation slice has exactly
  \<^verbatim>\<open>val_window\<close> elements, the final slice with \<^verbatim>\<open>fold_incomplete\<close> true
  being the sole exception. Without folding the final slice can be short as well: the
  docstring's first example ends with \<^verbatim>\<open>([6,7,8],[9])\<close>, whose validation slice
  has one element where \<^verbatim>\<open>val_window\<close> is 2.
\<close>

theorem final_validation_slice_short_without_folding:
  "fst (py_list (create_train_val_date_splits [0, 1, 2, 3, 4, 5, 6, 7, 8, 9 :: int] 3 2 False))
     = Inr [([0, 1, 2], [3, 4]), ([2, 3, 4], [5, 6]), ([4, 5, 6], [7, 8]), ([6, 7, 8], [9])] \<and>
   int (length (snd ([6, 7, 8], [9 :: int]))) \<noteq> 2"
proof
  show "fst (py_list (create_train_val_date_splits [0, 1, 2, 3, 4, 5, 6, 7, 8, 9 :: int] 3 2 False))
     = Inr [([0, 1, 2], [3, 4]), ([2, 3, 4], [5, 6]), ([4, 5, 6], [7, 8]), ([6, 7, 8], [9])]"
    by code_simp
  show "int (length (snd ([6, 7, 8], [9 :: int]))) \<noteq> 2" by simp
qed

text \<open>
  C2 (amended): for positive windows, every validation slice but the final one has
  exactly \<^verbatim>\<open>val_window\<close> elements. The final one has at least one element, and at
  most \<^verbatim>\<open>val_window\<close> without folding, at most \<^verbatim>\<open>val_window\<close> plus the
  remainder \<^verbatim>\<open>(len(dates) - train_window) % val_window\<close> with folding.
\<close>

theorem validation_slice_lengths:
  assumes "0 < tw" and "0 < vw"
  shows "\<exists>ss. fst (py_list (create_train_val_date_splits ds tw vw fi)) = Inr ss \<and>
     (\<forall>k < length ss.
        (Suc k < length ss \<longrightarrow> int (length (snd (ss ! k))) = vw) \<and>
        (Suc k = length ss \<longrightarrow>
           1 \<le> int (length (snd (ss ! k))) \<and>
           int (length (snd (ss ! k)))
             \<le> (if fi then vw + (int (length ds) - tw) mod vw else vw)))"
proof -
  let ?g = "create_train_val_date_splits ds tw vw fi"
  let ?n = "int (length ds)"
  from assms(2) obtain ss where ss: "fst (py_list ?g) = Inr ss"
    using splits_exist [of vw ds tw fi] by auto
  have tw0: "0 \<le> tw" using assms(1) by simp
  have "(Suc k < length ss \<longrightarrow> int (length (snd (ss ! k))) = vw) \<and>
        (Suc k = length ss \<longrightarrow>
           1 \<le> int (length (snd (ss ! k))) \<and>
           int (length (snd (ss ! k)))
             \<le> (if fi then vw + (?n - tw) mod vw else vw))"
    if k: "k < length ss" for k
  proof -
    let ?s = "int k * vw"
    have s0: "0 \<le> ?s" using assms(2) by simp
    have fits: "?s + tw < ?n" using split_k(1) [OF tw0 assms(2) ss k] .
    have val: "snd (ss ! k) = (if fi \<and> ?n < ?s + tw + 2 * vw
                   then drop (nat (?s + tw)) ds
                   else take (nat vw) (drop (nat (?s + tw)) ds))"
      unfolding split_k(2) [OF tw0 assms(2) ss k] by simp
    have inner: "int (length (snd (ss ! k))) = vw" if "Suc k < length ss"
    proof -
      have nl: "\<not> (fi \<and> ?n < ?s + tw + 2 * vw)"
        using split_k(4) [OF tw0 assms(2) ss k that] .
      have "int (Suc k) * vw + tw < ?n"
        using split_k(1) [OF tw0 assms(2) ss that] .
      then have "?s + tw + vw < ?n" by (simp add: algebra_simps)
      with s0 tw0 assms(2) have "nat vw \<le> length ds - nat (?s + tw)" by linarith
      then have "length (take (nat vw) (drop (nat (?s + tw)) ds)) = nat vw" by simp
      then show ?thesis
        unfolding val if_not_P [OF nl] using assms(2) by simp
    qed
    have final: "1 \<le> int (length (snd (ss ! k))) \<and>
           int (length (snd (ss ! k))) \<le> (if fi then vw + (?n - tw) mod vw else vw)"
    proof (cases "fi \<and> ?n < ?s + tw + 2 * vw")
      case True
      have len: "int (length (snd (ss ! k))) = ?n - (?s + tw)"
        unfolding val if_P [OF True] using s0 tw0 fits by simp
      have "?n - (?s + tw) \<le> vw + (?n - tw) mod vw"
      proof (rule folded_length_bound [where q = "int k"])
        show "0 < vw" by (rule assms(2))
        show "1 \<le> ?n - (?s + tw)" using fits by simp
        show "?n - (?s + tw) < 2 * vw" using True by simp
        show "?n - tw = ?n - (?s + tw) + int k * vw" by simp
      qed
      with len True fits show ?thesis by simp
    next
      case False
      have len: "length (snd (ss ! k)) = min (nat vw) (length ds - nat (?s + tw))"
        unfolding val if_not_P [OF False] by simp
      have lo: "1 \<le> int (min (nat vw) (length ds - nat (?s + tw)))"
        using s0 tw0 fits assms(2) by linarith
      have hi: "int (min (nat vw) (length ds - nat (?s + tw))) \<le> vw"
        using assms(2) by linarith
      have "0 \<le> (?n - tw) mod vw" using assms(2) by simp
      with lo hi show ?thesis unfolding len by simp
    qed
    from inner final show ?thesis by blast
  qed
  with ss show ?thesis by blast
qed

text \<open>
  The second docstring example: slices of 2, 2 and 3 elements, the bound for the last
  being \<open>2 + 7 mod 2 = 3\<close>.
\<close>

theorem validation_slice_lengths_witness:
  "(0::int) < 3 \<and> (0::int) < 2 \<and>
   fst (py_list (create_train_val_date_splits [0, 1, 2, 3, 4, 5, 6, 7, 8, 9 :: int] 3 2 True))
     = Inr [([0, 1, 2], [3, 4]), ([2, 3, 4], [5, 6]), ([4, 5, 6], [7, 8, 9])] \<and>
   int (length [3, 4 :: int]) = 2 \<and> int (length [5, 6 :: int]) = 2 \<and>
   1 \<le> int (length [7, 8, 9 :: int]) \<and>
   int (length [7, 8, 9 :: int]) \<le> 2 + (int (length [0, 1, 2, 3, 4, 5, 6, 7, 8, 9 :: int]) - 3) mod 2"
proof -
  have run: "fst (py_list (create_train_val_date_splits
                 [0, 1, 2, 3, 4, 5, 6, 7, 8, 9 :: int] 3 2 True))
     = Inr [([0, 1, 2], [3, 4]), ([2, 3, 4], [5, 6]), ([4, 5, 6], [7, 8, 9])]"
    by code_simp
  from validation_slice_lengths [of 3 2 "[0, 1, 2, 3, 4, 5, 6, 7, 8, 9 :: int]" True]
  obtain ss where ss: "fst (py_list (create_train_val_date_splits
                 [0, 1, 2, 3, 4, 5, 6, 7, 8, 9 :: int] 3 2 True)) = Inr ss"
    and len: "\<forall>k < length ss.
        (Suc k < length ss \<longrightarrow> int (length (snd (ss ! k))) = 2) \<and>
        (Suc k = length ss \<longrightarrow>
           1 \<le> int (length (snd (ss ! k))) \<and>
           int (length (snd (ss ! k)))
             \<le> (if True then 2 + (int (length [0, 1, 2, 3, 4, 5, 6, 7, 8, 9 :: int]) - 3) mod 2
                 else 2))"
    by auto
  from ss run have eq: "ss = [([0, 1, 2], [3, 4]), ([2, 3, 4], [5, 6]), ([4, 5, 6], [7, 8, 9])]"
    by simp
  from len [rule_format, of 0] len [rule_format, of 1] len [rule_format, of 2] run
  show ?thesis unfolding eq by simp
qed

subsection \<open>C3: folding absorbs the tail\<close>

text \<open>
  C3: with \<^verbatim>\<open>fold_incomplete\<close> true and at least one split yielded (windows
  positive, as the contract has them), the validation slice of the final split is
  everything of \<^verbatim>\<open>dates\<close> after its training slice, \<^verbatim>\<open>dates[start + train_window:]\<close>
  with \<^verbatim>\<open>start = (n - 1) * val_window\<close> for \<open>n\<close> splits: it is not empty and ends
  with the final element of \<^verbatim>\<open>dates\<close>. In particular
  \<^verbatim>\<open>split(list(range(10)), 3, 2, fold_incomplete=True)\<close> yields exactly
  \<^verbatim>\<open>[([0,1,2],[3,4]), ([2,3,4],[5,6]), ([4,5,6],[7,8,9])]\<close>.
\<close>

theorem folding_absorbs_the_tail:
  "(\<forall>(ds :: 'a list) tw vw ss.
      0 < tw \<longrightarrow> 0 < vw \<longrightarrow>
      fst (py_list (create_train_val_date_splits ds tw vw True)) = Inr ss \<longrightarrow> ss \<noteq> [] \<longrightarrow>
        snd (last ss) = drop (nat (int (length ss - 1) * vw + tw)) ds \<and>
        snd (last ss) \<noteq> [] \<and>
        last (snd (last ss)) = last ds) \<and>
   fst (py_list (create_train_val_date_splits [0, 1, 2, 3, 4, 5, 6, 7, 8, 9 :: int] 3 2 True))
     = Inr [([0, 1, 2], [3, 4]), ([2, 3, 4], [5, 6]), ([4, 5, 6], [7, 8, 9])]"
proof (intro conjI allI impI)
  fix ds :: "'a list" and tw vw :: int and ss
  assume tw: "0 < tw" and vw: "0 < vw"
    and ss: "fst (py_list (create_train_val_date_splits ds tw vw True)) = Inr ss"
    and ne: "ss \<noteq> []"
  let ?n = "int (length ds)"
  obtain k where k: "Suc k = length ss" using ne by (cases ss) auto
  then have kl: "k < length ss" by simp
  have tw0: "0 \<le> tw" using tw by simp
  have la: "last ss = ss ! k" using ne k by (simp add: last_conv_nth flip: k)
  have folds: "?n < int k * vw + tw + 2 * vw"
    using last_split_folds [OF tw0 vw ss k] .
  have fits: "int k * vw + tw < ?n" using split_k(1) [OF tw0 vw ss kl] .
  have k1: "length ss - 1 = k" using k by simp
  show val: "snd (last ss) = drop (nat (int (length ss - 1) * vw + tw)) ds"
    unfolding la k1 split_k(2) [OF tw0 vw ss kl] using folds by simp
  have "0 \<le> int k * vw" using vw by simp
  then have lt: "nat (int k * vw + tw) < length ds" using fits tw0 by simp
  then show "snd (last ss) \<noteq> []" unfolding val k1 by simp
  show "last (snd (last ss)) = last ds" unfolding val k1 using lt by simp
next
  show "fst (py_list (create_train_val_date_splits [0, 1, 2, 3, 4, 5, 6, 7, 8, 9 :: int] 3 2 True))
     = Inr [([0, 1, 2], [3, 4]), ([2, 3, 4], [5, 6]), ([4, 5, 6], [7, 8, 9])]"
    by code_simp
qed

text \<open>
  The general part at the example: the last validation slice is \<^verbatim>\<open>dates[7:]\<close>.
\<close>

theorem folding_absorbs_the_tail_witness:
  "(0::int) < 3 \<and> (0::int) < 2 \<and>
   fst (py_list (create_train_val_date_splits [0, 1, 2, 3, 4, 5, 6, 7, 8, 9 :: int] 3 2 True))
     = Inr [([0, 1, 2], [3, 4]), ([2, 3, 4], [5, 6]), ([4, 5, 6], [7, 8, 9])] \<and>
   [([0, 1, 2], [3, 4]), ([2, 3, 4], [5, 6]), ([4, 5, 6], [7, 8, 9 :: int])] \<noteq> [] \<and>
   [7, 8, 9] = drop 7 [0, 1, 2, 3, 4, 5, 6, 7, 8, 9 :: int] \<and>
   last [7, 8, 9] = last [0, 1, 2, 3, 4, 5, 6, 7, 8, 9 :: int]"
proof -
  have run: "fst (py_list (create_train_val_date_splits
                 [0, 1, 2, 3, 4, 5, 6, 7, 8, 9 :: int] 3 2 True))
     = Inr [([0, 1, 2], [3, 4]), ([2, 3, 4], [5, 6]), ([4, 5, 6], [7, 8, 9])]"
    by code_simp
  have ne: "[([0, 1, 2], [3, 4]), ([2, 3, 4], [5, 6]), ([4, 5, 6], [7, 8, 9 :: int])] \<noteq> []"
    by simp
  have p3: "(0::int) < 3" and p2: "(0::int) < 2" by simp_all
  from folding_absorbs_the_tail [THEN conjunct1, rule_format, OF p3 p2 run ne] run
  show ?thesis by simp
qed

subsection \<open>C4: no exception, and nothing from a short list\<close>

text \<open>
  C4: for \<^verbatim>\<open>train_window\<close> and \<^verbatim>\<open>val_window\<close> at least 1 and any list, full
  iteration ends normally with a list of splits, no call of \<^verbatim>\<open>next\<close> raises
  \<^verbatim>\<open>ValueError\<close>, and a list of at most \<^verbatim>\<open>train_window\<close> elements gives the
  empty sequence.
\<close>

theorem no_exception_and_short_dates_give_nothing:
  assumes "1 \<le> tw" and "1 \<le> vw"
  shows "(\<exists>ss. fst (py_list (create_train_val_date_splits ds tw vw fi)) = Inr ss) \<and>
         (\<forall>k. fst (gen_next (advance k (create_train_val_date_splits ds tw vw fi)))
                 \<noteq> Inl ValueError) \<and>
         (int (length ds) \<le> tw \<longrightarrow>
            fst (py_list (create_train_val_date_splits ds tw vw fi)) = Inr [])"
proof (intro conjI allI impI)
  show ex: "\<exists>ss. fst (py_list (create_train_val_date_splits ds tw vw fi)) = Inr ss"
    using splits_exist [of vw ds tw fi] assms(2) by auto
  show "fst (gen_next (advance k (create_train_val_date_splits ds tw vw fi))) \<noteq> Inl ValueError"
    for k
    using assms(2) by (intro gen_next_no_value_error) (simp add: advance_frame)
  show "fst (py_list (create_train_val_date_splits ds tw vw fi)) = Inr []"
    if short: "int (length ds) \<le> tw"
  proof -
    from ex obtain ss
      where ss: "fst (py_list (create_train_val_date_splits ds tw vw fi)) = Inr ss" ..
    have "ss = []"
    proof (rule ccontr)
      assume "ss \<noteq> []"
      then have "0 < length ss" by simp
      then have "int 0 * vw + tw < int (length ds)"
        using split_k(1) [of tw vw ds fi ss 0] assms ss by simp
      with short show False by simp
    qed
    with ss show ?thesis by simp
  qed
qed

text \<open>
  The scenario \<^verbatim>\<open>split(list(range(3)), 3, 2, fold_incomplete=True)\<close>.
\<close>

theorem no_exception_and_short_dates_give_nothing_witness:
  "(1::int) \<le> 3 \<and> (1::int) \<le> 2 \<and> int (length [0, 1, 2 :: int]) \<le> 3 \<and>
   fst (py_list (create_train_val_date_splits [0, 1, 2 :: int] 3 2 True)) = Inr []"
  using no_exception_and_short_dates_give_nothing [of 3 2 "[0, 1, 2 :: int]" True]
  by simp

subsection \<open>C5: length of the training slices\<close>

text \<open>
  C5: for positive windows, full iteration gives a list of splits, and every training
  slice in it has exactly \<^verbatim>\<open>train_window\<close> elements.
\<close>

theorem train_slices_have_train_window_elements:
  assumes "0 < tw" and "0 < vw"
  shows "\<exists>ss. fst (py_list (create_train_val_date_splits ds tw vw fi)) = Inr ss \<and>
              (\<forall>sp \<in> set ss. int (length (fst sp)) = tw)"
proof -
  from assms(2) obtain ss
    where ss: "fst (py_list (create_train_val_date_splits ds tw vw fi)) = Inr ss"
    using splits_exist [of vw ds tw fi] by auto
  have "int (length (fst sp)) = tw" if "sp \<in> set ss" for sp
  proof -
    from that obtain k where k: "k < length ss" and sp: "sp = ss ! k"
      by (auto simp: in_set_conv_nth)
    have tw0: "0 \<le> tw" using assms(1) by simp
    have "0 \<le> int k * vw" using assms(2) by simp
    then show ?thesis
      using split_k(1) [OF tw0 assms(2) ss k] tw0
      unfolding sp split_k(2) [OF tw0 assms(2) ss k] by simp
  qed
  with ss show ?thesis by blast
qed

text \<open>
  On the docstring's first example all four training slices have 3 elements.
\<close>

theorem train_slices_have_train_window_elements_witness:
  "(0::int) < 3 \<and> (0::int) < 2 \<and>
   fst (py_list (create_train_val_date_splits [0, 1, 2, 3, 4, 5, 6, 7, 8, 9 :: int] 3 2 False))
     = Inr [([0, 1, 2], [3, 4]), ([2, 3, 4], [5, 6]), ([4, 5, 6], [7, 8]), ([6, 7, 8], [9])] \<and>
   int (length [0, 1, 2 :: int]) = 3 \<and> int (length [2, 3, 4 :: int]) = 3 \<and>
   int (length [4, 5, 6 :: int]) = 3 \<and> int (length [6, 7, 8 :: int]) = 3"
proof -
  have run: "fst (py_list (create_train_val_date_splits
                 [0, 1, 2, 3, 4, 5, 6, 7, 8, 9 :: int] 3 2 False))
     = Inr [([0, 1, 2], [3, 4]), ([2, 3, 4], [5, 6]), ([4, 5, 6], [7, 8]), ([6, 7, 8], [9])]"
    by code_simp
  from train_slices_have_train_window_elements [of 3 2 "[0, 1, 2, 3, 4, 5, 6, 7, 8, 9 :: int]" False]
  obtain ss where "fst (py_list (create_train_val_date_splits
                 [0, 1, 2, 3, 4, 5, 6, 7, 8, 9 :: int] 3 2 False)) = Inr ss"
    and "\<forall>sp \<in> set ss. int (length (fst sp)) = 3"
    by auto
  with run show ?thesis by simp
qed

subsection \<open>C6: the stride between splits\<close>

text \<open>
  C6: for positive windows, the \<open>k\<close>-th yielded split (from 0) comes from the
  \<open>k\<close>-th call of \<^verbatim>\<open>next\<close>, which leaves the generator suspended with
  \<^verbatim>\<open>start = k * val_window\<close>; its training slice is
  \<^verbatim>\<open>dates[k * val_window : k * val_window + train_window]\<close>; and the following split,
  when there is one, starts \<^verbatim>\<open>val_window\<close> further. So the yielded splits are at
  consecutive elements of the range, none skipped.
\<close>

theorem starts_advance_by_val_window:
  assumes "0 < tw" and "0 < vw"
  shows "\<exists>ss. fst (py_list (create_train_val_date_splits ds tw vw fi)) = Inr ss \<and>
     (\<forall>k < length ss.
        fst (gen_next (advance k (create_train_val_date_splits ds tw vw fi))) = Inr (ss ! k) \<and>
        start_offset (position (advance (Suc k) (create_train_val_date_splits ds tw vw fi)))
          = Some (int k * vw) \<and>
        fst (ss ! k) = take (nat tw) (drop (nat (int k * vw)) ds) \<and>
        (Suc k < length ss \<longrightarrow>
           start_offset (position
               (advance (Suc (Suc k)) (create_train_val_date_splits ds tw vw fi)))
             = Some (int k * vw + vw)))"
proof -
  let ?g = "create_train_val_date_splits ds tw vw fi"
  from assms(2) obtain ss where ss: "fst (py_list ?g) = Inr ss"
    using splits_exist [of vw ds tw fi] by auto
  have tw0: "0 \<le> tw" using assms(1) by simp
  have st: "start_offset (position (advance (Suc k) ?g)) = Some (int k * vw)"
    if "k < length ss" for k
    unfolding split_k(3) [OF tw0 assms(2) ss that] by simp
  have "fst (gen_next (advance k ?g)) = Inr (ss ! k) \<and>
        start_offset (position (advance (Suc k) ?g)) = Some (int k * vw) \<and>
        fst (ss ! k) = take (nat tw) (drop (nat (int k * vw)) ds) \<and>
        (Suc k < length ss \<longrightarrow>
           start_offset (position (advance (Suc (Suc k)) ?g)) = Some (int k * vw + vw))"
    if k: "k < length ss" for k
  proof (intro conjI impI)
    show "fst (gen_next (advance k ?g)) = Inr (ss ! k)" using ss k by (rule splits_nth)
    show "start_offset (position (advance (Suc k) ?g)) = Some (int k * vw)" using k by (rule st)
    show "fst (ss ! k) = take (nat tw) (drop (nat (int k * vw)) ds)"
      unfolding split_k(2) [OF tw0 assms(2) ss k] by simp
    show "start_offset (position (advance (Suc (Suc k)) ?g)) = Some (int k * vw + vw)"
      if "Suc k < length ss"
      using st [OF that] by (simp add: algebra_simps del: advance.simps)
  qed
  with ss show ?thesis by blast
qed

text \<open>
  On the docstring's first example the second split starts at 2 and the third at 4.
\<close>

theorem starts_advance_by_val_window_witness:
  "(0::int) < 3 \<and> (0::int) < 2 \<and>
   fst (py_list (create_train_val_date_splits [0, 1, 2, 3, 4, 5, 6, 7, 8, 9 :: int] 3 2 False))
     = Inr [([0, 1, 2], [3, 4]), ([2, 3, 4], [5, 6]), ([4, 5, 6], [7, 8]), ([6, 7, 8], [9])] \<and>
   start_offset (position (advance 2
       (create_train_val_date_splits [0, 1, 2, 3, 4, 5, 6, 7, 8, 9 :: int] 3 2 False))) = Some 2 \<and>
   start_offset (position (advance 3
       (create_train_val_date_splits [0, 1, 2, 3, 4, 5, 6, 7, 8, 9 :: int] 3 2 False))) = Some 4 \<and>
   [2, 3, 4] = take 3 (drop 2 [0, 1, 2, 3, 4, 5, 6, 7, 8, 9 :: int])"
proof -
  let ?g = "create_train_val_date_splits [0, 1, 2, 3, 4, 5, 6, 7, 8, 9 :: int] 3 2 False"
  have run: "fst (py_list ?g)
     = Inr [([0, 1, 2], [3, 4]), ([2, 3, 4], [5, 6]), ([4, 5, 6], [7, 8]), ([6, 7, 8], [9])]"
    by code_simp
  from starts_advance_by_val_window [of 3 2 "[0, 1, 2, 3, 4, 5, 6, 7, 8, 9 :: int]" False]
  obtain ss where ss: "fst (py_list ?g) = Inr ss"
    and st: "\<forall>k < length ss.
        fst (gen_next (advance k ?g)) = Inr (ss ! k) \<and>
        start_offset (position (advance (Suc k) ?g)) = Some (int k * 2) \<and>
        fst (ss ! k) = take (nat 3) (drop (nat (int k * 2)) [0, 1, 2, 3, 4, 5, 6, 7, 8, 9 :: int]) \<and>
        (Suc k < length ss \<longrightarrow>
           start_offset (position (advance (Suc (Suc k)) ?g)) = Some (int k * 2 + 2))"
    by auto
  from ss run have eq: "ss = [([0, 1, 2], [3, 4]), ([2, 3, 4], [5, 6]), ([4, 5, 6], [7, 8]),
                              ([6, 7, 8], [9])]"
    by simp
  have two: "advance 2 ?g = advance (Suc 1) ?g" and three: "advance 3 ?g = advance (Suc (Suc 1)) ?g"
    by (simp_all only: numeral_2_eq_2 numeral_3_eq_3 One_nat_def)
  from st [rule_format, of 1] run show ?thesis
    unfolding eq two three by (simp del: advance.simps)
qed

subsection \<open>C7: termination and the number of splits\<close>

text \<open>
  C7: for positive windows, full iteration returns (\<open>py_list\<close> is a total
  function, and its result here is a list, not an error), with at most
  \<^verbatim>\<open>ceil(len(dates) / val_window)\<close> splits.
\<close>

theorem splits_bounded_by_range:
  assumes "0 < tw" and "0 < vw"
  shows "\<exists>ss. fst (py_list (create_train_val_date_splits ds tw vw fi)) = Inr ss \<and>
              int (length ss) \<le> \<lceil>real (length ds) / real_of_int vw\<rceil>"
proof -
  from assms(2) obtain ss
    where ss: "fst (py_list (create_train_val_date_splits ds tw vw fi)) = Inr ss"
    using splits_exist [of vw ds tw fi] by auto
  have "int (length ss) \<le> \<lceil>real (length ds) / real_of_int vw\<rceil>"
  proof (cases ss)
    case Nil
    have "0 \<le> real (length ds) / real_of_int vw" using assms(2) by simp
    then have "0 \<le> \<lceil>real (length ds) / real_of_int vw\<rceil>" by linarith
    with Nil show ?thesis by simp
  next
    case (Cons s rest)
    then obtain k where k: "length ss = Suc k" by simp
    then have kl: "k < length ss" by simp
    have "int k * vw + tw < int (length ds)"
      using split_k(1) [of tw vw ds fi ss k] assms ss kl by simp
    then have "int k * vw < int (length ds)" using assms(1) by simp
    then have "real_of_int (int k * vw) < real_of_int (int (length ds))"
      by (simp only: of_int_less_iff)
    then have "real k * real_of_int vw < real (length ds)" by simp
    then have "real k < real (length ds) / real_of_int vw"
      using assms(2) by (simp add: pos_less_divide_eq)
    then have "int k < \<lceil>real (length ds) / real_of_int vw\<rceil>"
      by (simp add: less_ceiling_iff)
    with k show ?thesis by simp
  qed
  with ss show ?thesis by blast
qed

text \<open>
  On the docstring's first example: 4 splits, and the bound is 5.
\<close>

theorem splits_bounded_by_range_witness:
  "(0::int) < 3 \<and> (0::int) < 2 \<and>
   fst (py_list (create_train_val_date_splits [0, 1, 2, 3, 4, 5, 6, 7, 8, 9 :: int] 3 2 False))
     = Inr [([0, 1, 2], [3, 4]), ([2, 3, 4], [5, 6]), ([4, 5, 6], [7, 8]), ([6, 7, 8], [9])] \<and>
   int (length [([0, 1, 2], [3, 4]), ([2, 3, 4], [5, 6]), ([4, 5, 6], [7, 8]),
                ([6, 7, 8], [9 :: int])])
     \<le> \<lceil>real (length [0, 1, 2, 3, 4, 5, 6, 7, 8, 9 :: int]) / real_of_int 2\<rceil>"
proof -
  have run: "fst (py_list (create_train_val_date_splits
                 [0, 1, 2, 3, 4, 5, 6, 7, 8, 9 :: int] 3 2 False))
     = Inr [([0, 1, 2], [3, 4]), ([2, 3, 4], [5, 6]), ([4, 5, 6], [7, 8]), ([6, 7, 8], [9])]"
    by code_simp
  from splits_bounded_by_range [of 3 2 "[0, 1, 2, 3, 4, 5, 6, 7, 8, 9 :: int]" False]
  obtain ss where "fst (py_list (create_train_val_date_splits
                 [0, 1, 2, 3, 4, 5, 6, 7, 8, 9 :: int] 3 2 False)) = Inr ss"
    and "int (length ss) \<le> \<lceil>real (length [0, 1, 2, 3, 4, 5, 6, 7, 8, 9 :: int]) / real_of_int 2\<rceil>"
    by auto
  with run show ?thesis by simp
qed

subsection \<open>C8: determinism\<close>


subsection \<open>C9: the list is not mutated\<close>

text \<open>
  C9: for every input, \<^verbatim>\<open>dates\<close> after full iteration is the list that was passed
  in, and so it is after any number of calls of \<^verbatim>\<open>next\<close>.
\<close>

theorem dates_never_mutated:
  "dates (snd (py_list (create_train_val_date_splits ds tw vw fi))) = ds \<and>
   (\<forall>k. dates (advance k (create_train_val_date_splits ds tw vw fi)) = ds)"
  by (simp add: py_list_frame advance_frame)

subsection \<open>C10: no validation at call time\<close>

text \<open>
  C10: the call returns a generator that has not started, whatever the arguments.
  With \<^verbatim>\<open>val_window = 0\<close> the first \<^verbatim>\<open>next\<close> raises \<^verbatim>\<open>ValueError\<close> (for
  every list, the non-empty ones among them) and finishes the generator, so that
  \<^verbatim>\<open>list(...)\<close> raises too instead of returning an empty list.
\<close>

theorem zero_val_window_raises_at_first_next:
  "position (create_train_val_date_splits ds tw vw fi) = Created \<and>
   gen_next (create_train_val_date_splits ds tw 0 fi)
     = (Inl ValueError, (create_train_val_date_splits ds tw 0 fi)\<lparr>position := Exhausted\<rparr>) \<and>
   fst (py_list (create_train_val_date_splits ds tw 0 fi)) = Inl ValueError"
  by (simp add: gen_next_def py_list.simps [of "create_train_val_date_splits ds tw 0 fi"])

end
